theory Spec2Isabelle
  imports Main "HOL-Library.AList" "HOL-Library.Sublist" "HOL-Library.Char_ord" "HOL-Library.List_Lexorder"
begin

section \<open>Paths\<close>

text \<open>
  The driver builds every path with \<^verbatim>\<open>filepath.Join\<close>, which joins its non-empty
  arguments with the separator and cleans the result lexically: empty and \<^verbatim>\<open>.\<close> elements
  vanish, \<^verbatim>\<open>..\<close> removes the element before it, a \<^verbatim>\<open>..\<close> with nothing before it is dropped
  in a rooted path and kept in a relative one. A cleaned path string is represented by
  whether it is rooted and by its elements: \<open>Path True []\<close> is \<^verbatim>\<open>/\<close>, \<open>Path False []\<close> is
  \<^verbatim>\<open>.\<close>, \<open>Path False [''..'', ''db'']\<close> is \<^verbatim>\<open>../db\<close>.
\<close>

datatype gopath = Path (rooted: bool) (elems: "string list")

fun split_path :: "string \<Rightarrow> string list" where
  "split_path [] = [[]]"
| "split_path (c # cs) =
     (if c = CHR ''/'' then [] # split_path cs
      else (case split_path cs of [] \<Rightarrow> [[c]] | w # ws \<Rightarrow> (c # w) # ws))"

definition clean_step :: "bool \<Rightarrow> string list \<Rightarrow> string \<Rightarrow> string list" where
  "clean_step ro p e =
     (if e = [] \<or> e = ''.'' then p
      else if e = ''..'' then
        (if p \<noteq> [] \<and> last p \<noteq> ''..'' then butlast p else if ro then p else p @ [e])
      else p @ [e])"

text \<open>
  \<open>Join base names\<close> is \<^verbatim>\<open>filepath.Join(base, names...)\<close> for a first argument that is a
  cleaned, non-empty path, as \<^verbatim>\<open>d.dir\<close> and every result of \<^verbatim>\<open>Join\<close> is: cleaning goes on
  from the elements of \<open>base\<close>.
\<close>

definition Join :: "gopath \<Rightarrow> string list \<Rightarrow> gopath" where
  "Join base names =
     Path (rooted base)
       (foldl (clean_step (rooted base)) (elems base) (concat (map split_path names)))"

text \<open>
  \<open>Join_names names\<close> is \<^verbatim>\<open>filepath.Join(names...)\<close> of plain strings, as in the first join
  of \<^verbatim>\<open>Delete\<close>: the result is the empty string (\<open>None\<close>) when every name is empty, and
  otherwise the cleaned path, rooted when the first non-empty name begins with the
  separator. \<open>Join_path base p\<close> is \<^verbatim>\<open>filepath.Join(base, p)\<close> for such a result \<open>p\<close>.
\<close>

definition Join_names :: "string list \<Rightarrow> gopath option" where
  "Join_names names =
     (case filter (\<lambda>n. n \<noteq> []) names of
        [] \<Rightarrow> None
      | n # ns \<Rightarrow>
          Some (Path (hd n = CHR ''/'')
            (foldl (clean_step (hd n = CHR ''/'')) [] (concat (map split_path (n # ns))))))"

definition Join_path :: "gopath \<Rightarrow> gopath option \<Rightarrow> gopath" where
  "Join_path base p =
     (case p of
        None \<Rightarrow> base
      | Some q \<Rightarrow> Path (rooted base) (foldl (clean_step (rooted base)) (elems base) (elems q)))"

text \<open>
  String concatenation on a path, as in \<^verbatim>\<open>record + ".json"\<close>: the suffix (which holds no
  separator) is appended to the last element; \<^verbatim>\<open>"/" + ".json"\<close> is \<^verbatim>\<open>/.json\<close> and
  \<^verbatim>\<open>"." + ".json"\<close> is the name \<^verbatim>\<open>..json\<close>.
\<close>

definition add_ext :: "gopath \<Rightarrow> string \<Rightarrow> gopath" where
  "add_ext p s =
     Path (rooted p)
       (if elems p = [] then [(if rooted p then [] else ''.'') @ s]
        else butlast (elems p) @ [last (elems p) @ s])"

text \<open>
  The operating system resolves a path string to a place in the file system: a rooted
  path from the root, a relative one from the working directory of the process, a \<^verbatim>\<open>..\<close>
  going to the parent (the root is its own parent). A place is the list of the names on
  the way down from the root.
\<close>

type_synonym path = "string list"

definition os_step :: "path \<Rightarrow> string \<Rightarrow> path" where
  "os_step x e =
     (if e = [] \<or> e = ''.'' then x else if e = ''..'' then butlast x else x @ [e])"

definition os_path :: "path \<Rightarrow> gopath \<Rightarrow> path" where
  "os_path wd p = foldl os_step (if rooted p then [] else wd) (elems p)"

section \<open>The file system\<close>

text \<open>
  A tree of directories and regular files. Permissions, links, special files and full
  disks are not modelled, so the only failures of the system calls are the structural ones.
  The functions named \<open>sys_\<close> act on a place; the functions with the names of package
  \<^verbatim>\<open>os\<close> take a path string and the working directory.
\<close>

datatype node = File string | Dir "(string \<times> node) list"

datatype errno = ENOENT | ENOTDIR | EISDIR | EEXIST | EBUSY | EINVAL | ENOTEMPTY

datatype file_mode = ModeDir | ModeRegular

fun walk :: "node \<Rightarrow> path \<Rightarrow> errno + node" where
  "walk n [] = Inr n"
| "walk (File b) (x # xs) = Inl ENOTDIR"
| "walk (Dir es) (x # xs) =
     (case map_of es x of None \<Rightarrow> Inl ENOENT | Some n \<Rightarrow> walk n xs)"

definition sys_stat :: "node \<Rightarrow> path \<Rightarrow> errno + file_mode" where
  "sys_stat fs p =
     (case walk fs p of
        Inl e \<Rightarrow> Inl e
      | Inr (File b) \<Rightarrow> Inr ModeRegular
      | Inr (Dir es) \<Rightarrow> Inr ModeDir)"

definition sys_read_file :: "node \<Rightarrow> path \<Rightarrow> errno + string" where
  "sys_read_file fs p =
     (case walk fs p of
        Inl e \<Rightarrow> Inl e
      | Inr (File b) \<Rightarrow> Inr b
      | Inr (Dir es) \<Rightarrow> Inl EISDIR)"

definition sys_read_dir :: "node \<Rightarrow> path \<Rightarrow> errno + string list" where
  "sys_read_dir fs p =
     (case walk fs p of
        Inl e \<Rightarrow> Inl e
      | Inr (File b) \<Rightarrow> Inl ENOTDIR
      | Inr (Dir es) \<Rightarrow> Inr (sort (map fst es)))"

text \<open>
  \<open>alter f fs p\<close> replaces what is at \<open>p\<close> by what \<open>f\<close> makes of it (\<open>None\<close>: no entry);
  the directory holding \<open>p\<close> must exist.
\<close>

fun alter :: "(node option \<Rightarrow> errno + node option) \<Rightarrow> node \<Rightarrow> path \<Rightarrow> errno + node" where
  "alter f n [] =
     (case f (Some n) of Inl e \<Rightarrow> Inl e | Inr None \<Rightarrow> Inl EBUSY | Inr (Some n') \<Rightarrow> Inr n')"
| "alter f (File b) (x # xs) = Inl ENOTDIR"
| "alter f (Dir es) [x] =
     (case f (map_of es x) of
        Inl e \<Rightarrow> Inl e
      | Inr None \<Rightarrow> Inr (Dir (AList.delete x es))
      | Inr (Some n') \<Rightarrow> Inr (Dir (AList.update x n' es)))"
| "alter f (Dir es) (x # y # ys) =
     (case map_of es x of
        None \<Rightarrow> Inl ENOENT
      | Some n \<Rightarrow>
          (case alter f n (y # ys) of
             Inl e \<Rightarrow> Inl e
           | Inr n' \<Rightarrow> Inr (Dir (AList.update x n' es))))"

text \<open>Every missing directory on the way is created; a file on the way is an error.\<close>

fun sys_mkdir_all :: "node \<Rightarrow> path \<Rightarrow> errno + node" where
  "sys_mkdir_all (File b) p = Inl ENOTDIR"
| "sys_mkdir_all (Dir es) [] = Inr (Dir es)"
| "sys_mkdir_all (Dir es) (x # xs) =
     (case sys_mkdir_all (case map_of es x of None \<Rightarrow> Dir [] | Some n \<Rightarrow> n) xs of
        Inl e \<Rightarrow> Inl e
      | Inr n' \<Rightarrow> Inr (Dir (AList.update x n' es)))"

text \<open>A regular file is created or truncated; a directory cannot be written.\<close>

definition sys_write_file :: "node \<Rightarrow> path \<Rightarrow> string \<Rightarrow> errno + node" where
  "sys_write_file fs p b =
     alter (\<lambda>old. case old of Some (Dir es) \<Rightarrow> Inl EISDIR | _ \<Rightarrow> Inr (Some (File b))) fs p"

text \<open>
  The entry at a place goes with everything below it; nothing to remove is no error.
\<close>

definition sys_remove_all :: "node \<Rightarrow> path \<Rightarrow> errno option \<times> node" where
  "sys_remove_all fs p =
     (case alter (\<lambda>old. Inr None) fs p of
        Inl ENOENT \<Rightarrow> (None, fs)
      | Inl e \<Rightarrow> (Some e, fs)
      | Inr fs' \<Rightarrow> (None, fs'))"

text \<open>
  The content of a directory goes and the directory stays: what is left of a removal
  whose last step, removing the directory itself, the system refuses.
\<close>

definition sys_clear_dir :: "node \<Rightarrow> path \<Rightarrow> errno \<Rightarrow> errno option \<times> node" where
  "sys_clear_dir fs p refusal =
     (case walk fs p of
        Inl ENOENT \<Rightarrow> (None, fs)
      | Inl e \<Rightarrow> (Some e, fs)
      | Inr (File b) \<Rightarrow> (Some refusal, fs)
      | Inr (Dir es) \<Rightarrow>
          (case alter (\<lambda>old. Inr (Some (Dir []))) fs p of
             Inl e \<Rightarrow> (Some e, fs)
           | Inr fs' \<Rightarrow> (Some refusal, fs')))"

definition move :: "node \<Rightarrow> path \<Rightarrow> path \<Rightarrow> node \<Rightarrow> errno + node" where
  "move fs old new n =
     (if old = [] then Inl EBUSY
      else if prefix old new then Inl EINVAL
      else (case alter (\<lambda>x. Inr None) fs old of
              Inl e \<Rightarrow> Inl e
            | Inr fs1 \<Rightarrow> alter (\<lambda>x. Inr (Some n)) fs1 new))"

text \<open>
  The old place must exist; Go refuses a new place that is a directory with
  \<^verbatim>\<open>EEXIST\<close>; otherwise the node moves and replaces a file at the new place.
\<close>

definition sys_rename :: "node \<Rightarrow> path \<Rightarrow> path \<Rightarrow> errno + node" where
  "sys_rename fs old new =
     (case walk fs old of
        Inl e \<Rightarrow> Inl e
      | Inr n \<Rightarrow>
          (case walk fs new of
             Inr (Dir es) \<Rightarrow> Inl EEXIST
           | Inr (File b) \<Rightarrow>
               if old = new then Inr fs
               else (case n of Dir es \<Rightarrow> Inl ENOTDIR | File b' \<Rightarrow> move fs old new n)
           | Inl e \<Rightarrow> move fs old new n))"

text \<open>The functions of package \<^verbatim>\<open>os\<close> on path strings.\<close>

definition Stat :: "node \<Rightarrow> path \<Rightarrow> gopath \<Rightarrow> errno + file_mode" where
  "Stat fs wd p = sys_stat fs (os_path wd p)"

definition ReadFile :: "node \<Rightarrow> path \<Rightarrow> gopath \<Rightarrow> errno + string" where
  "ReadFile fs wd p = sys_read_file fs (os_path wd p)"

text \<open>\<^verbatim>\<open>os.ReadDir\<close> returns the entries sorted by file name.\<close>

definition ReadDir :: "node \<Rightarrow> path \<Rightarrow> gopath \<Rightarrow> errno + string list" where
  "ReadDir fs wd p = sys_read_dir fs (os_path wd p)"

definition WriteFile :: "node \<Rightarrow> path \<Rightarrow> gopath \<Rightarrow> string \<Rightarrow> errno + node" where
  "WriteFile fs wd p b = sys_write_file fs (os_path wd p) b"

definition Rename :: "node \<Rightarrow> path \<Rightarrow> gopath \<Rightarrow> gopath \<Rightarrow> errno + node" where
  "Rename fs wd old new = sys_rename fs (os_path wd old) (os_path wd new)"

text \<open>
  \<^verbatim>\<open>os.MkdirAll\<close> creates the missing directories named in the path, never one above them:
  the directory the path starts from (the root, or the working directory after the leading
  \<^verbatim>\<open>..\<close> elements) must exist.
\<close>

definition MkdirAll :: "node \<Rightarrow> path \<Rightarrow> gopath \<Rightarrow> errno + node" where
  "MkdirAll fs wd p =
     (case walk fs (os_path wd (Path (rooted p) (takeWhile (\<lambda>e. e = ''..'') (elems p)))) of
        Inl e \<Rightarrow> Inl e
      | Inr (File b) \<Rightarrow> Inl ENOTDIR
      | Inr (Dir es) \<Rightarrow> sys_mkdir_all fs (os_path wd p))"

text \<open>
  \<^verbatim>\<open>os.RemoveAll\<close> removes the path and everything below it, and returns nil when the
  path does not exist. It refuses the path \<^verbatim>\<open>.\<close> with \<^verbatim>\<open>EINVAL\<close> and removes nothing. The
  root of the file system and a path that ends in \<^verbatim>\<open>..\<close> cannot be removed themselves:
  their content goes and the call reports the error of the last step.
\<close>

definition removable :: "path \<Rightarrow> gopath \<Rightarrow> bool" where
  "removable wd p =
     (p \<noteq> Path False [] \<and> os_path wd p \<noteq> [] \<and> (elems p = [] \<or> last (elems p) \<noteq> ''..''))"

definition RemoveAll :: "node \<Rightarrow> path \<Rightarrow> gopath \<Rightarrow> errno option \<times> node" where
  "RemoveAll fs wd p =
     (if p = Path False [] then (Some EINVAL, fs)
      else if elems p \<noteq> [] \<and> last (elems p) = ''..'' then
        sys_clear_dir fs (os_path wd p) ENOTEMPTY
      else if os_path wd p = [] then sys_clear_dir fs [] EBUSY
      else sys_remove_all fs (os_path wd p))"

text \<open>What a place holds, without the content of a directory.\<close>

datatype entry = Regular string | Directory

definition entry_at :: "node \<Rightarrow> path \<Rightarrow> entry option" where
  "entry_at fs p =
     (case walk fs p of
        Inl e \<Rightarrow> None
      | Inr (File b) \<Rightarrow> Some (Regular b)
      | Inr (Dir es) \<Rightarrow> Some Directory)"

definition file_at :: "node \<Rightarrow> path \<Rightarrow> string option" where
  "file_at fs p = (case entry_at fs p of Some (Regular b) \<Rightarrow> Some b | _ \<Rightarrow> None)"

section \<open>The JSON library\<close>

text \<open>
  \<^verbatim>\<open>encoding/json\<close> is not part of the repository: the driver is modelled over any
  encoder and decoder. \<open>MarshalIndent v prefix indent\<close> is the encoder the driver calls;
  \<open>Unmarshal b\<close> is \<^verbatim>\<open>json.Unmarshal(b, &v)\<close> for a destination \<^verbatim>\<open>v\<close> of type string, giving
  the decoded string or the error.
\<close>

datatype json_error = UnsupportedTypeError | UnsupportedValueError | SyntaxError | UnmarshalTypeError

record 'v json_lib =
  MarshalIndent :: "'v \<Rightarrow> string \<Rightarrow> string \<Rightarrow> json_error + string"
  Unmarshal :: "string \<Rightarrow> json_error + string"

section \<open>The driver\<close>

text \<open>
  The errors a call returns. The first three are the \<^verbatim>\<open>fmt.Errorf\<close> values of the name
  checks (\<^verbatim>\<open>Missing collection - no place to save record!\<close>,
  \<^verbatim>\<open>Missing resource - unable to save record (no name)!\<close> and
  \<^verbatim>\<open>Missing collection - unable to read\<close>); \<open>UnableToFind collection resource\<close> is the
  error of \<^verbatim>\<open>Delete\<close>, whose message names the joined path; the others are errors of the
  operating system and of the JSON library, passed on as they are.
\<close>

datatype error =
    MissingCollection
  | MissingResource
  | MissingCollectionRead
  | UnableToFind string string
  | PathError errno
  | JsonError json_error


fun is_NotFound :: "error \<Rightarrow> bool" where
  "is_NotFound (UnableToFind c r) = True"
| "is_NotFound (PathError ENOENT) = True"
| "is_NotFound e = False"

text \<open>
  The driver: \<open>dir\<close> is the root directory as \<^verbatim>\<open>New\<close> stores it, cleaned, rooted or relative
  (\<^verbatim>\<open>main\<close> passes \<^verbatim>\<open>./\<close>, stored as \<^verbatim>\<open>.\<close>). \<open>cwd\<close> is not a field of the Go struct: it is
  the working directory of the process the driver lives in, which the program never
  changes and against which the operating system resolves a relative \<open>dir\<close>. The mutexes
  only order concurrent callers and the logger only prints, so a single call is a
  function of these two, the file system and the arguments.
\<close>

record Driver =
  dir :: gopath
  cwd :: path

text \<open>The place of a path of the driver.\<close>

definition at :: "Driver \<Rightarrow> gopath \<Rightarrow> path" where
  "at d p = os_path (cwd d) p"

text \<open>
  The paths a call computes from the root directory and its arguments. \<^verbatim>\<open>Read\<close> joins the
  root directory, the collection and the resource at once; \<^verbatim>\<open>Delete\<close> joins the collection
  and the resource first and the root directory with the result.
\<close>

definition collection_dir :: "Driver \<Rightarrow> string \<Rightarrow> gopath" where
  "collection_dir d collection = Join (dir d) [collection]"

definition record_path :: "Driver \<Rightarrow> string \<Rightarrow> string \<Rightarrow> gopath" where
  "record_path d collection resource = Join (dir d) [collection, resource]"

definition delete_path :: "Driver \<Rightarrow> string \<Rightarrow> string \<Rightarrow> gopath" where
  "delete_path d collection resource = Join_path (dir d) (Join_names [collection, resource])"

definition fnlPath :: "Driver \<Rightarrow> string \<Rightarrow> string \<Rightarrow> gopath" where
  "fnlPath d collection resource = Join (collection_dir d collection) [resource @ ''.json'']"

definition tmpPath :: "Driver \<Rightarrow> string \<Rightarrow> string \<Rightarrow> gopath" where
  "tmpPath d collection resource = add_ext (fnlPath d collection resource) ''.tmp''"

definition stat :: "node \<Rightarrow> path \<Rightarrow> gopath \<Rightarrow> errno + file_mode" where
  "stat fs wd p =
     (case Stat fs wd p of
        Inl ENOENT \<Rightarrow> Stat fs wd (add_ext p ''.json'')
      | r \<Rightarrow> r)"

text \<open>
  \<^verbatim>\<open>Read\<close> takes its destination \<^verbatim>\<open>v\<close> as a string by value and decodes into that copy:
  what the caller gets is the error alone.
\<close>

definition Read :: "'v json_lib \<Rightarrow> Driver \<Rightarrow> node \<Rightarrow> string \<Rightarrow> string \<Rightarrow> string \<Rightarrow> error option" where
  "Read lib d fs collection resource v =
     (if collection = [] then Some MissingCollection
      else if resource = [] then Some MissingResource
      else
        let record = record_path d collection resource in
        (case stat fs (cwd d) record of
           Inl e \<Rightarrow> Some (PathError e)
         | Inr fi \<Rightarrow>
             (case ReadFile fs (cwd d) (add_ext record ''.json'') of
                Inl e \<Rightarrow> Some (PathError e)
              | Inr b \<Rightarrow>
                  (case Unmarshal lib b of
                     Inl e \<Rightarrow> Some (JsonError e)
                   | Inr v' \<Rightarrow> None))))"

text \<open>
  \<^verbatim>\<open>Delete\<close> removes a directory as it is and, for a regular file, the path with the
  suffix appended. Its last \<^verbatim>\<open>return nil\<close> is for a file that is neither, which the file
  system here does not have.
\<close>

definition Delete :: "Driver \<Rightarrow> node \<Rightarrow> string \<Rightarrow> string \<Rightarrow> error option \<times> node" where
  "Delete d fs collection resource =
     (let dir' = delete_path d collection resource in
      (case stat fs (cwd d) dir' of
         Inl e \<Rightarrow> (Some (UnableToFind collection resource), fs)
       | Inr ModeDir \<Rightarrow>
           (case RemoveAll fs (cwd d) dir' of (err, fs') \<Rightarrow> (map_option PathError err, fs'))
       | Inr ModeRegular \<Rightarrow>
           (case RemoveAll fs (cwd d) (add_ext dir' ''.json'') of
              (err, fs') \<Rightarrow> (map_option PathError err, fs'))))"

definition Write :: "'v json_lib \<Rightarrow> Driver \<Rightarrow> node \<Rightarrow> string \<Rightarrow> string \<Rightarrow> 'v \<Rightarrow> error option \<times> node" where
  "Write lib d fs collection resource v =
     (if collection = [] then (Some MissingCollection, fs)
      else if resource = [] then (Some MissingResource, fs)
      else
        (case MkdirAll fs (cwd d) (collection_dir d collection) of
           Inl e \<Rightarrow> (Some (PathError e), fs)
         | Inr fs1 \<Rightarrow>
             (case MarshalIndent lib v [] [CHR 0x09] of
                Inl e \<Rightarrow> (Some (JsonError e), fs1)
              | Inr b \<Rightarrow>
                  (case WriteFile fs1 (cwd d) (tmpPath d collection resource) (b @ [CHR 0x0A]) of
                     Inl e \<Rightarrow> (Some (PathError e), fs1)
                   | Inr fs2 \<Rightarrow>
                       (case Rename fs2 (cwd d) (tmpPath d collection resource)
                               (fnlPath d collection resource) of
                          Inl e \<Rightarrow> (Some (PathError e), fs2)
                        | Inr fs3 \<Rightarrow> (None, fs3))))))"

fun read_files :: "node \<Rightarrow> path \<Rightarrow> gopath \<Rightarrow> string list \<Rightarrow> string list \<Rightarrow> error + string list" where
  "read_files fs wd dir' [] records = Inr records"
| "read_files fs wd dir' (name # files) records =
     (case ReadFile fs wd (Join dir' [name]) of
        Inl e \<Rightarrow> Inl (PathError e)
      | Inr b \<Rightarrow> read_files fs wd dir' files (records @ [b]))"

definition ReadAll :: "Driver \<Rightarrow> node \<Rightarrow> string \<Rightarrow> error + string list" where
  "ReadAll d fs collection =
     (if collection = [] then Inl MissingCollectionRead
      else
        let dir' = collection_dir d collection in
        (case stat fs (cwd d) dir' of
           Inl e \<Rightarrow> Inl (PathError e)
         | Inr fi \<Rightarrow>
             (case ReadDir fs (cwd d) dir' of
                Inl e \<Rightarrow> Inl (PathError e)
              | Inr files \<Rightarrow> read_files fs (cwd d) dir' files [])))"

section \<open>A JSON library and stores to compute with\<close>

text \<open>
  An instance of the library for Go values of type \<^verbatim>\<open>bool\<close>. The encoder is the library's on
  all of them. The decoder into a string is the library's on the texts it is used on here:
  the two encodings of a boolean (a type error) and a string literal of printable ASCII
  characters without quote or backslash, followed by a newline (the string). Any other text
  is reported as a syntax error, which only approximates the library.
\<close>

definition plain_char :: "char \<Rightarrow> bool" where
  "plain_char c =
     (0x20 \<le> (of_char c :: nat) \<and> (of_char c :: nat) < 0x7F \<and> c \<noteq> CHR 0x22 \<and> c \<noteq> CHR 0x5C)"

definition unmarshal_string :: "string \<Rightarrow> json_error + string" where
  "unmarshal_string b =
     (if b = ''true'' @ [CHR 0x0A] \<or> b = ''false'' @ [CHR 0x0A] then Inl UnmarshalTypeError
      else (case b of
              [] \<Rightarrow> Inl SyntaxError
            | c # cs \<Rightarrow>
                if c = CHR 0x22 \<and> 2 \<le> length cs \<and> last cs = CHR 0x0A
                   \<and> last (butlast cs) = CHR 0x22 \<and> list_all plain_char (butlast (butlast cs))
                then Inr (butlast (butlast cs))
                else Inl SyntaxError))"

definition go_json :: "bool json_lib" where
  "go_json =
     \<lparr> MarshalIndent = (\<lambda>v prefix indent. Inr (if v then ''true'' else ''false'')),
       Unmarshal = unmarshal_string \<rparr>"

text \<open>A store opened on \<^verbatim>\<open>/db\<close>, and one opened on \<^verbatim>\<open>./\<close> by a process working in \<^verbatim>\<open>/db\<close>.\<close>

definition db :: Driver where
  "db = \<lparr> dir = Path True [''db''], cwd = [''home''] \<rparr>"

definition here :: Driver where
  "here = \<lparr> dir = Path False [], cwd = [''db''] \<rparr>"

definition fs_empty :: node where
  "fs_empty = Dir [(''db'', Dir []), (''home'', Dir [])]"

definition fs_zoro :: node where
  "fs_zoro =
     Dir [(''db'', Dir [(''users'', Dir [(''zoro.json'', File (''true'' @ [CHR 0x0A]))])]),
          (''home'', Dir [])]"

definition fs_tmpdir :: node where
  "fs_tmpdir =
     Dir [(''db'', Dir [(''users'',
       Dir [(''zoro.json'', File (''false'' @ [CHR 0x0A])), (''zoro.json.tmp'', Dir [])])]),
          (''home'', Dir [])]"

definition fs_shadow :: node where
  "fs_shadow =
     Dir [(''db'', Dir [(''users'',
       Dir [(''zoro'', Dir [(''x.json'', File (''true'' @ [CHR 0x0A]))]),
            (''zoro.json'', File (CHR 0x22 # ''hi'' @ [CHR 0x22, CHR 0x0A]))])]),
          (''home'', Dir [])]"

definition fs_nested :: node where
  "fs_nested =
     Dir [(''db'', Dir [(''users'',
       Dir [(''admins'', Dir [(''a.json'', File (''true'' @ [CHR 0x0A]))]),
            (''zoro.json'', File (''true'' @ [CHR 0x0A]))])]),
          (''home'', Dir [])]"

definition fs_two :: node where
  "fs_two =
     Dir [(''db'', Dir [(''users'',
       Dir [(''zoro.json'', File (''true'' @ [CHR 0x0A])),
            (''sabo.json'', File (''false'' @ [CHR 0x0A]))])]),
          (''home'', Dir [])]"

definition fs_outside :: node where
  "fs_outside =
     Dir [(''db'', Dir []), (''home'', Dir []),
          (''x'', Dir [(''a.json'', File (''true'' @ [CHR 0x0A]))])]"

text \<open>A name that \<^verbatim>\<open>filepath.Join\<close> appends as it is: one element, not \<^verbatim>\<open>.\<close> or \<^verbatim>\<open>..\<close>.\<close>

definition plain_name :: "string \<Rightarrow> bool" where
  "plain_name s = (s \<noteq> [] \<and> CHR ''/'' \<notin> set s \<and> s \<noteq> ''.'' \<and> s \<noteq> ''..'')"

section \<open>Lookup after an update\<close>

lemma walk_append:
  "walk t (p @ q) = (case walk t p of Inl e \<Rightarrow> Inl e | Inr n \<Rightarrow> walk n q)"
proof (induction t p rule: walk.induct)
  case (1 n) show ?case by simp
next
  case (2 b x xs) show ?case by simp
next
  case (3 es x xs) then show ?case by (simp split: option.splits)
qed

lemma alter_walk_inside:
  "alter f t p = Inr t' \<Longrightarrow>
   \<exists>r. f (case walk t p of Inl e \<Rightarrow> None | Inr n \<Rightarrow> Some n) = Inr r \<and>
       (\<forall>q. walk t' (p @ q) = (case r of None \<Rightarrow> Inl ENOENT | Some n \<Rightarrow> walk n q))"
proof (induction f t p arbitrary: t' rule: alter.induct)
  case (1 f n) then show ?case by (auto split: sum.splits option.splits)
next
  case (2 f b x xs) then show ?case by simp
next
  case (3 f es x)
  then show ?case
    by (auto split: sum.splits option.splits simp: update_conv' delete_conv')
next
  case (4 f es x y ys)
  from "4.prems" obtain n n' where n: "map_of es x = Some n"
    and a: "alter f n (y # ys) = Inr n'" and t': "t' = Dir (AList.update x n' es)"
    by (auto split: sum.splits option.splits)
  from "4.IH" [OF n a] obtain r where
    r: "f (case walk n (y # ys) of Inl e \<Rightarrow> None | Inr m \<Rightarrow> Some m) = Inr r"
      "\<forall>q. walk n' ((y # ys) @ q) = (case r of None \<Rightarrow> Inl ENOENT | Some m \<Rightarrow> walk m q)"
    by blast
  show ?case
  proof (intro exI conjI allI)
    show "f (case walk (Dir es) (x # y # ys) of Inl e \<Rightarrow> None | Inr m \<Rightarrow> Some m) = Inr r"
      using r(1) n by simp
  next
    fix q
    show "walk t' ((x # y # ys) @ q) = (case r of None \<Rightarrow> Inl ENOENT | Some m \<Rightarrow> walk m q)"
      using r(2) [rule_format, of q] by (simp add: t' update_conv')
  qed
qed

lemma alter_walk_other:
  "alter f t p = Inr t' \<Longrightarrow> \<not> prefix p q \<Longrightarrow> \<not> prefix q p \<Longrightarrow> walk t' q = walk t q"
proof (induction f t p arbitrary: t' q rule: alter.induct)
  case (1 f n) then show ?case by simp
next
  case (2 f b x xs) then show ?case by simp
next
  case (3 f es x)
  then show ?case
    by (cases q) (auto split: sum.splits option.splits simp: update_conv' delete_conv')
next
  case (4 f es x y ys)
  show ?case
  proof (cases q)
    case Nil with 4 show ?thesis by simp
  next
    case (Cons z zs)
    with 4 show ?thesis
      by (auto split: sum.splits option.splits simp: update_conv')
  qed
qed

lemma alter_walk_above:
  "alter f t p = Inr t' \<Longrightarrow> strict_prefix q p \<Longrightarrow>
   \<exists>es es'. walk t q = Inr (Dir es) \<and> walk t' q = Inr (Dir es')"
proof (induction f t p arbitrary: t' q rule: alter.induct)
  case (1 f n) then show ?case by simp
next
  case (2 f b x xs) then show ?case by simp
next
  case (3 f es x)
  then show ?case
    by (cases q) (auto split: sum.splits option.splits simp: update_conv' delete_conv')
next
  case (4 f es x y ys)
  show ?case
  proof (cases q)
    case Nil with 4 show ?thesis by (auto split: sum.splits option.splits)
  next
    case (Cons z zs)
    with 4 show ?thesis
      by (auto split: sum.splits option.splits simp: update_conv')
  qed
qed

lemma alter_fails:
  "alter f t p = Inl e \<Longrightarrow> \<forall>x e'. f x \<noteq> Inl e' \<Longrightarrow> p \<noteq> [] \<Longrightarrow> walk t p = Inl e"
proof (induction f t p rule: alter.induct)
  case (1 f n) then show ?case by simp
next
  case (2 f b x xs) then show ?case by simp
next
  case (3 f es x)
  then show ?case by (auto split: sum.splits option.splits) 
next
  case (4 f es x y ys)
  then show ?case by (auto split: sum.splits option.splits)
qed

lemma sys_mkdir_all_entry:
  "sys_mkdir_all t p = Inr t' \<Longrightarrow>
   entry_at t' q = (if prefix q p then Some Directory else entry_at t q)"
proof (induction t p arbitrary: t' q rule: sys_mkdir_all.induct)
  case (1 b p) then show ?case by simp
next
  case (2 es) then show ?case by (auto simp: entry_at_def)
next
  case (3 es x xs)
  from "3.prems" obtain n' where
    m: "sys_mkdir_all (case map_of es x of None \<Rightarrow> Dir [] | Some n \<Rightarrow> n) xs = Inr n'"
    and t': "t' = Dir (AList.update x n' es)"
    by (auto split: sum.splits)
  note IH = "3.IH" [OF m]
  show ?case
  proof (cases q)
    case Nil then show ?thesis by (simp add: t' entry_at_def)
  next
    case (Cons y ys)
    show ?thesis
    proof (cases "y = x")
      case True
      have "entry_at t' q = entry_at n' ys"
        by (simp add: t' Cons True entry_at_def update_conv')
      also have "\<dots> = (if prefix ys xs then Some Directory
                       else entry_at (case map_of es x of None \<Rightarrow> Dir [] | Some n \<Rightarrow> n) ys)"
        by (rule IH)
      also have "\<dots> = (if prefix q (x # xs) then Some Directory else entry_at (Dir es) q)"
        by (cases ys) (auto simp: Cons True entry_at_def split: option.splits)
      finally show ?thesis .
    next
      case False
      then show ?thesis by (simp add: t' Cons entry_at_def update_conv')
    qed
  qed
qed

lemma sys_mkdir_all_no_file:
  "sys_mkdir_all t p = Inr t' \<Longrightarrow> prefix q p \<Longrightarrow> entry_at t q \<noteq> Some (Regular b)"
proof (induction t p arbitrary: t' q rule: sys_mkdir_all.induct)
  case (1 b p) then show ?case by simp
next
  case (2 es) then show ?case by (auto simp: entry_at_def)
next
  case (3 es x xs)
  from "3.prems" obtain n' where
    m: "sys_mkdir_all (case map_of es x of None \<Rightarrow> Dir [] | Some n \<Rightarrow> n) xs = Inr n'"
    by (auto split: sum.splits)
  show ?case
  proof (cases q)
    case Nil then show ?thesis by (simp add: entry_at_def)
  next
    case (Cons y ys)
    with "3.prems" have y: "y = x" and ys: "prefix ys xs" by auto
    from "3.IH" [OF m ys] show ?thesis
      by (auto simp: Cons y entry_at_def split: option.splits sum.splits node.splits)
  qed
qed

lemma entry_at_below_None:
  "entry_at t p \<noteq> Some Directory \<Longrightarrow> q \<noteq> [] \<Longrightarrow> entry_at t (p @ q) = None"
  by (cases q) (auto simp: entry_at_def walk_append split: sum.splits node.splits)

lemma sys_write_file_entry:
  assumes "sys_write_file t p b = Inr t'"
  shows "entry_at t' q = (if q = p then Some (Regular b) else entry_at t q)"
proof -
  let ?f = "\<lambda>old. case old of Some (Dir es) \<Rightarrow> Inl EISDIR | _ \<Rightarrow> Inr (Some (File b))"
  from assms have a: "alter ?f t p = Inr t'" by (simp add: sys_write_file_def)
  from alter_walk_inside [OF a] obtain r where
    r: "?f (case walk t p of Inl e \<Rightarrow> None | Inr n \<Rightarrow> Some n) = Inr r"
    and w: "\<And>q. walk t' (p @ q) = (case r of None \<Rightarrow> Inl ENOENT | Some n \<Rightarrow> walk n q)"
    by blast
  from r have r': "r = Some (File b)" and nd: "entry_at t p \<noteq> Some Directory"
    by (auto simp: entry_at_def split: sum.splits node.splits option.splits)
  consider (eq) "q = p" | (below) q' where "q = p @ q'" "q' \<noteq> []"
    | (above) "strict_prefix q p" | (other) "\<not> prefix p q" "\<not> prefix q p"
    by (metis prefix_def strict_prefix_def append_Nil2)
  then show ?thesis
  proof cases
    case eq
    with w [of "[]"] r' show ?thesis by (simp add: entry_at_def)
  next
    case below
    with w [of q'] r' have "entry_at t' q = None"
      by (cases q') (simp_all add: entry_at_def)
    with below entry_at_below_None [OF nd] show ?thesis by simp
  next
    case above
    with alter_walk_above [OF a above] show ?thesis
      by (auto simp: entry_at_def)
  next
    case other
    with alter_walk_other [OF a other] show ?thesis
      by (auto simp: entry_at_def)
  qed
qed

lemma remove_walk:
  assumes "alter (\<lambda>x. Inr None) t p = Inr t'"
  shows "walk t' (p @ q) = Inl ENOENT"
  using alter_walk_inside [OF assms] by auto

lemma remove_entry:
  assumes a: "alter (\<lambda>x. Inr None) t p = Inr t'"
  shows "entry_at t' q = (if prefix p q then None else entry_at t q)"
proof -
  consider (below) q' where "q = p @ q'" | (above) "strict_prefix q p"
    | (other) "\<not> prefix p q" "\<not> prefix q p"
    by (metis prefix_def strict_prefix_def append_Nil2)
  then show ?thesis
  proof cases
    case below
    with remove_walk [OF a, of q'] show ?thesis by (simp add: entry_at_def)
  next
    case above
    with alter_walk_above [OF a above] show ?thesis
      by (auto simp: entry_at_def strict_prefix_def)
  next
    case other
    with alter_walk_other [OF a other] show ?thesis by (simp add: entry_at_def)
  qed
qed

lemma put_entry:
  assumes a: "alter (\<lambda>x. Inr (Some (File b))) t p = Inr t'"
    and nd: "entry_at t p \<noteq> Some Directory"
  shows "entry_at t' q = (if q = p then Some (Regular b) else entry_at t q)"
proof -
  from alter_walk_inside [OF a] have
    w: "\<And>q. walk t' (p @ q) = walk (File b) q" by auto
  consider (eq) "q = p" | (below) q' where "q = p @ q'" "q' \<noteq> []"
    | (above) "strict_prefix q p" | (other) "\<not> prefix p q" "\<not> prefix q p"
    by (metis prefix_def strict_prefix_def append_Nil2)
  then show ?thesis
  proof cases
    case eq
    with w [of "[]"] show ?thesis by (simp add: entry_at_def)
  next
    case below
    with w [of q'] have "entry_at t' q = None"
      by (cases q') (simp_all add: entry_at_def)
    with below entry_at_below_None [OF nd] show ?thesis by simp
  next
    case above
    with alter_walk_above [OF a above] show ?thesis
      by (auto simp: entry_at_def)
  next
    case other
    with alter_walk_other [OF a other] show ?thesis
      by (auto simp: entry_at_def)
  qed
qed

lemma sys_rename_file_entry:
  assumes old: "walk t old = Inr (File b)"
    and rn: "sys_rename t old new = Inr t'"
  shows "entry_at t' q =
     (if q = new then Some (Regular b) else if q = old then None else entry_at t q)"
proof (cases "old = new")
  case True
  with old rn have "t' = t" by (simp add: sys_rename_def)
  with True old show ?thesis by (simp add: entry_at_def)
next
  case False
  from old have eo: "entry_at t old = Some (Regular b)" by (simp add: entry_at_def)
  from rn old False have nd: "entry_at t new \<noteq> Some Directory"
    by (auto simp: sys_rename_def entry_at_def split: sum.splits node.splits)
  from rn old False have mv: "move t old new (File b) = Inr t'"
    by (auto simp: sys_rename_def split: sum.splits node.splits if_splits)
  then obtain t1 where np: "\<not> prefix old new"
    and r1: "alter (\<lambda>x. Inr None) t old = Inr t1"
    and r2: "alter (\<lambda>x. Inr (Some (File b))) t1 new = Inr t'"
    by (auto simp: move_def split: if_splits sum.splits)
  have e1: "\<And>q. entry_at t1 q = (if prefix old q then None else entry_at t q)"
    by (rule remove_entry [OF r1])
  have below_old: "\<And>q. prefix old q \<Longrightarrow> q \<noteq> old \<Longrightarrow> entry_at t q = None"
  proof -
    fix q assume "prefix old q" "q \<noteq> old"
    then obtain zs where "q = old @ zs" "zs \<noteq> []" by (auto simp: prefix_def)
    with entry_at_below_None [of t old zs] eo show "entry_at t q = None" by simp
  qed
  have nd1: "entry_at t1 new \<noteq> Some Directory" using e1 nd by simp
  have "entry_at t' q = (if q = new then Some (Regular b) else entry_at t1 q)"
    by (rule put_entry [OF r2 nd1])
  then show ?thesis using e1 [of q] below_old [of q] by auto
qed

section \<open>Names and paths\<close>

lemma split_path_plain: "CHR ''/'' \<notin> set s \<Longrightarrow> split_path s = [s]"
  by (induction s) auto

lemma plain_name_ext: "plain_name r \<Longrightarrow> plain_name (r @ ''.json'')"
  by (auto simp: plain_name_def)

lemma Join_plain: "plain_name n \<Longrightarrow> Join p [n] = Path (rooted p) (elems p @ [n])"
  by (simp add: Join_def plain_name_def split_path_plain clean_step_def)

lemma Join_two: "Join p [c, r] = Join (Join p [c]) [r]"
  by (simp add: Join_def)

lemma add_ext_snoc: "add_ext (Path ro (p @ [x])) s = Path ro (p @ [x @ s])"
  by (simp add: add_ext_def)

lemma os_path_snoc:
  "plain_name n \<Longrightarrow> os_path wd (Path ro (p @ [n])) = os_path wd (Path ro p) @ [n]"
  by (simp add: os_path_def os_step_def plain_name_def)

lemma os_step_ext:
  assumes "3 \<le> length s"
  shows "os_step x (l @ s) = x @ [l @ s]"
proof -
  have ne: "l @ s \<noteq> t" if "length t < 3" for t
  proof
    assume "l @ s = t"
    then have "length (l @ s) = length t" by (rule arg_cong)
    with assms that show False by simp
  qed
  have "l @ s \<noteq> []" "l @ s \<noteq> ''.''" "l @ s \<noteq> ''..''"
    by (rule ne, simp)+
  then show ?thesis by (simp add: os_step_def)
qed

lemma os_path_add_ext:
  assumes s: "3 \<le> length s"
  shows "\<exists>X l'. os_path wd (add_ext p s) = X @ [l'] \<and>
     (os_path wd p = X \<or> os_path wd p = butlast X \<or> (\<exists>l. os_path wd p = X @ [l] \<and> l' = l @ s))"
proof (cases "elems p" rule: rev_cases)
  case Nil
  then show ?thesis using os_step_ext [OF s]
    by (auto simp: os_path_def add_ext_def)
next
  case (snoc ys l)
  let ?X = "foldl os_step (if rooted p then [] else wd) ys"
  have a: "os_path wd (add_ext p s) = ?X @ [l @ s]"
    using snoc os_step_ext [OF s] by (simp add: os_path_def add_ext_def)
  have b: "os_path wd p = os_step ?X l" using snoc by (simp add: os_path_def)
  show ?thesis unfolding a b by (auto simp: os_step_def)
qed

lemma os_path_add_ext_neq:
  assumes s: "3 \<le> length s"
  shows "os_path wd (add_ext p s) \<noteq> os_path wd p"
proof -
  from os_path_add_ext [OF s, of wd p] obtain X l' where
    a: "os_path wd (add_ext p s) = X @ [l']"
    and b: "os_path wd p = X \<or> os_path wd p = butlast X \<or> (\<exists>l. os_path wd p = X @ [l] \<and> l' = l @ s)"
    by blast
  from b show ?thesis
  proof (elim disjE exE conjE)
    assume "os_path wd p = X" with a show ?thesis by simp
  next
    assume e: "os_path wd p = butlast X"
    show ?thesis
    proof
      assume "os_path wd (add_ext p s) = os_path wd p"
      with a e have "length (X @ [l']) = length (butlast X)" by simp
      then show False by simp
    qed
  next
    fix l assume "os_path wd p = X @ [l]" "l' = l @ s"
    with a s show ?thesis by auto
  qed
qed

lemma os_path_add_ext_not_prefix:
  assumes s: "3 \<le> length s"
  shows "\<not> prefix (os_path wd (add_ext p s)) (os_path wd p)"
proof -
  from os_path_add_ext [OF s, of wd p] obtain X l' where
    a: "os_path wd (add_ext p s) = X @ [l']"
    and b: "os_path wd p = X \<or> os_path wd p = butlast X \<or> (\<exists>l. os_path wd p = X @ [l] \<and> l' = l @ s)"
    by blast
  from b show ?thesis
  proof (elim disjE exE conjE)
    assume "os_path wd p = X" with a show ?thesis by (auto simp: prefix_def)
  next
    assume e: "os_path wd p = butlast X"
    show ?thesis
    proof
      assume "prefix (os_path wd (add_ext p s)) (os_path wd p)"
      then have "length (X @ [l']) \<le> length (butlast X)" using a e by (metis prefix_length_le)
      then show False by simp
    qed
  next
    fix l assume "os_path wd p = X @ [l]" "l' = l @ s"
    with a s show ?thesis by (auto simp: prefix_def)
  qed
qed

section \<open>Write\<close>

lemma tmp_neq_fnl: "at d (tmpPath d c r) \<noteq> at d (fnlPath d c r)"
  by (simp add: at_def tmpPath_def os_path_add_ext_neq)

lemma sys_write_file_walk:
  "sys_write_file t p b = Inr t' \<Longrightarrow> walk t' p = Inr (File b)"
  using sys_write_file_entry [of t p b t' p]
  by (auto simp: entry_at_def split: sum.splits node.splits)

lemma MkdirAll_sys:
  "MkdirAll fs wd p = Inr fs' \<Longrightarrow> sys_mkdir_all fs (os_path wd p) = Inr fs'"
  by (auto simp: MkdirAll_def split: sum.splits node.splits)

lemma Write_success:
  assumes "Write lib d fs c r v = (None, fs')"
  shows "\<exists>b. MarshalIndent lib v [] [CHR 0x09] = Inr b \<and>
    (\<forall>q. entry_at fs' q =
      (if q = at d (fnlPath d c r) then Some (Regular (b @ [CHR 0x0A]))
       else if q = at d (tmpPath d c r) then None
       else if prefix q (at d (collection_dir d c)) then Some Directory
       else entry_at fs q))"
proof -
  from assms obtain fs1 b fs2 where
    mk: "MkdirAll fs (cwd d) (collection_dir d c) = Inr fs1"
    and enc: "MarshalIndent lib v [] [CHR 0x09] = Inr b"
    and wr: "sys_write_file fs1 (at d (tmpPath d c r)) (b @ [CHR 0x0A]) = Inr fs2"
    and rn: "sys_rename fs2 (at d (tmpPath d c r)) (at d (fnlPath d c r)) = Inr fs'"
    by (auto simp: Write_def WriteFile_def Rename_def at_def split: if_splits sum.splits)
  from MkdirAll_sys [OF mk] have mk': "sys_mkdir_all fs (at d (collection_dir d c)) = Inr fs1"
    by (simp add: at_def)
  have "entry_at fs' q =
      (if q = at d (fnlPath d c r) then Some (Regular (b @ [CHR 0x0A]))
       else if q = at d (tmpPath d c r) then None
       else if prefix q (at d (collection_dir d c)) then Some Directory
       else entry_at fs q)" for q
    using sys_rename_file_entry [OF sys_write_file_walk [OF wr] rn, of q]
      sys_write_file_entry [OF wr, of q] sys_mkdir_all_entry [OF mk', of q]
    by simp
  with enc show ?thesis by blast
qed

lemma Write_no_file_above:
  assumes "Write lib d fs c r v = (None, fs')" "prefix q (at d (collection_dir d c))"
  shows "entry_at fs q \<noteq> Some (Regular b)"
proof -
  from assms obtain fs1 where mk: "MkdirAll fs (cwd d) (collection_dir d c) = Inr fs1"
    by (auto simp: Write_def split: if_splits sum.splits)
  from MkdirAll_sys [OF mk] have "sys_mkdir_all fs (at d (collection_dir d c)) = Inr fs1"
    by (simp add: at_def)
  from sys_mkdir_all_no_file [OF this assms(2)] show ?thesis .
qed



text \<open>
  C10. When \<^verbatim>\<open>Write\<close> succeeds, every place other than the final path and the temporary
  path holds the same file content as before (and holds a file only if it did before);
  the temporary path holds nothing afterwards.
\<close>

theorem Write_frame:
  assumes w: "Write lib d fs c r v = (None, fs')"
  shows "(\<forall>q. q \<noteq> at d (fnlPath d c r) \<and> q \<noteq> at d (tmpPath d c r) \<longrightarrow>
            file_at fs' q = file_at fs q) \<and>
         entry_at fs' (at d (tmpPath d c r)) = None"
proof -
  from Write_success [OF w] obtain b where
    e: "\<And>q. entry_at fs' q =
      (if q = at d (fnlPath d c r) then Some (Regular (b @ [CHR 0x0A]))
       else if q = at d (tmpPath d c r) then None
       else if prefix q (at d (collection_dir d c)) then Some Directory
       else entry_at fs q)" by blast
  have ne: "at d (tmpPath d c r) \<noteq> at d (fnlPath d c r)" by (rule tmp_neq_fnl)
  have "file_at fs' q = file_at fs q"
    if "q \<noteq> at d (fnlPath d c r)" "q \<noteq> at d (tmpPath d c r)" for q
  proof (cases "prefix q (at d (collection_dir d c))")
    case True
    with Write_no_file_above [OF w True] e [of q] that show ?thesis
      by (auto simp: file_at_def split: option.splits entry.splits)
  next
    case False
    with e [of q] that show ?thesis by (simp add: file_at_def)
  qed
  moreover have "entry_at fs' (at d (tmpPath d c r)) = None"
    using e [of "at d (tmpPath d c r)"] ne by simp
  ultimately show ?thesis by blast
qed

theorem Write_frame_witness:
  "Write go_json here fs_zoro ''users'' ''sabo'' False =
     (None, snd (Write go_json here fs_zoro ''users'' ''sabo'' False)) \<and>
   file_at (snd (Write go_json here fs_zoro ''users'' ''sabo'' False)) [''db'', ''users'', ''zoro.json'']
     = Some (''true'' @ [CHR 0x0A]) \<and>
   entry_at (snd (Write go_json here fs_zoro ''users'' ''sabo'' False))
     (at here (tmpPath here ''users'' ''sabo'')) = None"
proof -
  let ?fs' = "snd (Write go_json here fs_zoro ''users'' ''sabo'' False)"
  have h: "Write go_json here fs_zoro ''users'' ''sabo'' False = (None, ?fs')"
    by code_simp
  have n1: "[''db'', ''users'', ''zoro.json''] \<noteq> at here (fnlPath here ''users'' ''sabo'')"
    by code_simp
  have n2: "[''db'', ''users'', ''zoro.json''] \<noteq> at here (tmpPath here ''users'' ''sabo'')"
    by code_simp
  have old: "file_at fs_zoro [''db'', ''users'', ''zoro.json''] = Some (''true'' @ [CHR 0x0A])"
    by code_simp
  from Write_frame [OF h] n1 n2 old h show ?thesis by simp
qed

text \<open>
  C2 as stated fails: with a resource name that climbs out of the collection directory the
  final path can be a directory that \<^verbatim>\<open>Write\<close> itself creates before the rename onto it
  is refused; the call returns an error and the final path, absent before, is a directory.
\<close>

theorem Write_failure_counterexample:
  "fst (Write go_json db fs_empty ''y.json/z'' ''../../y'' True) = Some (PathError EEXIST) \<and>
   at db (fnlPath db ''y.json/z'' ''../../y'') = [''db'', ''y.json''] \<and>
   entry_at fs_empty [''db'', ''y.json''] = None \<and>
   entry_at (snd (Write go_json db fs_empty ''y.json/z'' ''../../y'' True)) [''db'', ''y.json'']
     = Some Directory"
  by code_simp

text \<open>
  C2, amended. When \<^verbatim>\<open>Write\<close> returns an error and the final path is neither the
  collection directory nor a directory above it, the final path holds what it held before
  the call: the same file content, a directory, or nothing.
\<close>

theorem Write_failure_keeps_final:
  assumes w: "Write lib d fs c r v = (Some e, fs')"
    and np: "\<not> prefix (at d (fnlPath d c r)) (at d (collection_dir d c))"
  shows "entry_at fs' (at d (fnlPath d c r)) = entry_at fs (at d (fnlPath d c r))"
proof -
  have ne: "at d (fnlPath d c r) \<noteq> at d (tmpPath d c r)"
    using tmp_neq_fnl [of d c r] by simp
  show ?thesis
  proof (cases "c = [] \<or> r = []")
    case True with w have "fs' = fs" by (auto simp: Write_def split: if_splits)
    then show ?thesis by simp
  next
    case names: False
    show ?thesis
    proof (cases "MkdirAll fs (cwd d) (collection_dir d c)")
      case (Inl e1) with w names show ?thesis by (simp add: Write_def)
    next
      case mk: (Inr fs1)
      from MkdirAll_sys [OF mk] have "sys_mkdir_all fs (at d (collection_dir d c)) = Inr fs1"
        by (simp add: at_def)
      from sys_mkdir_all_entry [OF this, of "at d (fnlPath d c r)"] np
      have e1: "entry_at fs1 (at d (fnlPath d c r)) = entry_at fs (at d (fnlPath d c r))"
        by simp
      show ?thesis
      proof (cases "MarshalIndent lib v [] [CHR 0x09]")
        case (Inl e2) with w names mk e1 show ?thesis by (simp add: Write_def)
      next
        case enc: (Inr b)
        show ?thesis
        proof (cases "WriteFile fs1 (cwd d) (tmpPath d c r) (b @ [CHR 0x0A])")
          case (Inl e3) with w names mk enc e1 show ?thesis by (simp add: Write_def)
        next
          case wr: (Inr fs2)
          then have "sys_write_file fs1 (at d (tmpPath d c r)) (b @ [CHR 0x0A]) = Inr fs2"
            by (simp add: WriteFile_def at_def)
          from sys_write_file_entry [OF this, of "at d (fnlPath d c r)"] ne
          have e2: "entry_at fs2 (at d (fnlPath d c r)) = entry_at fs1 (at d (fnlPath d c r))"
            by simp
          from w names mk enc wr have "fs' = fs2"
            by (auto simp: Write_def split: sum.splits)
          with e1 e2 show ?thesis by simp
        qed
      qed
    qed
  qed
qed

theorem Write_failure_keeps_final_witness:
  "Write go_json db fs_tmpdir ''users'' ''zoro'' True = (Some (PathError EISDIR), fs_tmpdir) \<and>
   \<not> prefix (at db (fnlPath db ''users'' ''zoro'')) (at db (collection_dir db ''users'')) \<and>
   entry_at fs_tmpdir (at db (fnlPath db ''users'' ''zoro''))
     = Some (Regular (''false'' @ [CHR 0x0A]))"
proof -
  have h: "Write go_json db fs_tmpdir ''users'' ''zoro'' True = (Some (PathError EISDIR), fs_tmpdir)"
    by code_simp
  have np: "\<not> prefix (at db (fnlPath db ''users'' ''zoro'')) (at db (collection_dir db ''users''))"
    by code_simp
  have old: "entry_at fs_tmpdir (at db (fnlPath db ''users'' ''zoro''))
     = Some (Regular (''false'' @ [CHR 0x0A]))"
    by code_simp
  from Write_failure_keeps_final [OF h np] h np old show ?thesis by simp
qed

section \<open>Read and ReadAll\<close>

lemma walk_below_error: "walk t p = Inl e \<Longrightarrow> walk t (p @ q) = Inl e"
  by (simp add: walk_append)

lemma walk_sibling:
  "walk t (xs @ [y]) = Inl ENOENT \<Longrightarrow>
   walk t (xs @ [z]) = Inl ENOENT \<or> (\<exists>n. walk t (xs @ [z]) = Inr n)"
  by (auto simp: walk_append split: sum.splits node.splits option.splits elim: walk.elims)

lemma walk_ext_ENOENT:
  assumes s: "3 \<le> length s" and w: "walk t (os_path wd p) = Inl ENOENT"
  shows "walk t (os_path wd (add_ext p s)) = Inl ENOENT \<or>
         (\<exists>n. walk t (os_path wd (add_ext p s)) = Inr n)"
proof -
  from os_path_add_ext [OF s, of wd p] obtain X l' where
    a: "os_path wd (add_ext p s) = X @ [l']"
    and b: "os_path wd p = X \<or> os_path wd p = butlast X \<or> (\<exists>l. os_path wd p = X @ [l] \<and> l' = l @ s)"
    by blast
  from b show ?thesis
  proof (elim disjE exE conjE)
    assume "os_path wd p = X"
    with w walk_below_error [of t X ENOENT "[l']"] a show ?thesis by simp
  next
    assume e: "os_path wd p = butlast X"
    with w have "X \<noteq> []" by auto
    then have "X = butlast X @ [last X]" by simp
    with walk_below_error [of t "butlast X" ENOENT "[last X]"] w e
    have "walk t X = Inl ENOENT" by simp
    with walk_below_error [of t X ENOENT "[l']"] a show ?thesis by simp
  next
    fix l assume "os_path wd p = X @ [l]" "l' = l @ s"
    with w walk_sibling [of t X l l'] a show ?thesis by simp
  qed
qed

lemma stat_missing:
  assumes "walk fs (os_path wd p) = Inl ENOENT" "entry_at fs (os_path wd (add_ext p ''.json'')) = None"
  shows "stat fs wd p = Inl ENOENT"
proof -
  have "3 \<le> length ''.json''" by simp
  from walk_ext_ENOENT [OF this assms(1)] assms(2)
  have "walk fs (os_path wd (add_ext p ''.json'')) = Inl ENOENT"
    by (auto simp: entry_at_def split: node.splits)
  with assms(1) show ?thesis by (simp add: stat_def Stat_def sys_stat_def)
qed

text \<open>
  C7, amended. With both names non-empty, when the lookup of \<^verbatim>\<open>root/c/r\<close> ends at a missing
  name (no such file or directory) and \<^verbatim>\<open>root/c/r.json\<close> does not exist, \<^verbatim>\<open>Read\<close> fails
  with that error, which is a \<^verbatim>\<open>NotFound\<close>.
\<close>

theorem Read_missing:
  assumes "c \<noteq> []" "r \<noteq> []"
    and "walk fs (at d (record_path d c r)) = Inl ENOENT"
    and "entry_at fs (at d (add_ext (record_path d c r) ''.json'')) = None"
  shows "Read lib d fs c r v = Some (PathError ENOENT) \<and> is_NotFound (PathError ENOENT)"
  using assms stat_missing [of fs "cwd d" "record_path d c r"] by (simp add: Read_def at_def)

text \<open>
  C7 as stated fails: when a component on the way is a regular file, neither path exists
  and the error of \<^verbatim>\<open>os.Stat\<close> is \<^verbatim>\<open>ENOTDIR\<close>, for which \<^verbatim>\<open>os.IsNotExist\<close> is false.
\<close>

theorem Read_missing_counterexample:
  "entry_at fs_zoro (at db (record_path db ''users/zoro.json'' ''x'')) = None \<and>
   entry_at fs_zoro (at db (add_ext (record_path db ''users/zoro.json'' ''x'') ''.json'')) = None \<and>
   Read go_json db fs_zoro ''users/zoro.json'' ''x'' [] = Some (PathError ENOTDIR) \<and>
   \<not> is_NotFound (PathError ENOTDIR)"
  by code_simp

theorem Read_missing_witness:
  "walk fs_zoro (at here (record_path here ''users'' ''sabo'')) = Inl ENOENT \<and>
   entry_at fs_zoro (at here (add_ext (record_path here ''users'' ''sabo'') ''.json'')) = None \<and>
   Read go_json here fs_zoro ''users'' ''sabo'' [] = Some (PathError ENOENT)"
proof -
  have c: "''users'' \<noteq> []" and r: "''sabo'' \<noteq> []" by simp_all
  have w: "walk fs_zoro (at here (record_path here ''users'' ''sabo'')) = Inl ENOENT" by code_simp
  have e: "entry_at fs_zoro (at here (add_ext (record_path here ''users'' ''sabo'') ''.json'')) = None"
    by code_simp
  from Read_missing [OF c r w e, of go_json "[]"] w e show ?thesis by simp
qed

lemma ReadAll_missing:
  assumes "c \<noteq> []" "walk fs (at d (collection_dir d c)) = Inl ENOENT"
  shows "ReadAll d fs c = Inl (PathError ENOENT)"
proof -
  have "3 \<le> length ''.json''" by simp
  from walk_ext_ENOENT [OF this, of fs "cwd d" "collection_dir d c"] assms(2)
  have "stat fs (cwd d) (collection_dir d c) = Inl ENOENT \<or>
        (\<exists>m. stat fs (cwd d) (collection_dir d c) = Inr m)"
    by (auto simp: stat_def Stat_def sys_stat_def at_def split: node.splits)
  moreover have "ReadDir fs (cwd d) (collection_dir d c) = Inl ENOENT"
    using assms(2) by (simp add: ReadDir_def sys_read_dir_def at_def)
  ultimately show ?thesis using assms(1) by (auto simp: ReadAll_def)
qed

lemma record_path_plain:
  "plain_name r \<Longrightarrow>
   record_path d c r = Path (rooted (collection_dir d c)) (elems (collection_dir d c) @ [r])"
  using Join_two [of "dir d" c r] by (simp add: record_path_def collection_dir_def Join_plain)

lemma fnlPath_plain:
  "plain_name r \<Longrightarrow>
   fnlPath d c r = Path (rooted (collection_dir d c)) (elems (collection_dir d c) @ [r @ ''.json''])"
  by (simp add: fnlPath_def Join_plain plain_name_ext)

lemma at_snoc:
  "plain_name n \<Longrightarrow> at d (Path (rooted p) (elems p @ [n])) = at d p @ [n]"
  using os_path_snoc [of n "cwd d" "rooted p" "elems p"]
  by (simp add: at_def os_path_def)

lemma walk_snoc_parent:
  "walk t (xs @ [y]) = Inr n \<Longrightarrow> \<exists>es. walk t xs = Inr (Dir es) \<and> map_of es y = Some n"
  by (auto simp: walk_append split: sum.splits node.splits option.splits elim: walk.elims)

lemma walk_snoc_in_dir:
  "walk t xs = Inr (Dir es) \<Longrightarrow>
   walk t (xs @ [z]) = (case map_of es z of None \<Rightarrow> Inl ENOENT | Some n \<Rightarrow> Inr n)"
  by (simp add: walk_append split: option.splits)

text \<open>
  C4, amended. For a record file \<^verbatim>\<open>root/c/r.json\<close> with a plain resource name, \<^verbatim>\<open>Read\<close>
  called with \<^verbatim>\<open>r\<close> reads that file and returns what the decoder returns for its content
  (nil, or the decoding error). Called with \<^verbatim>\<open>r.json\<close> it reads \<^verbatim>\<open>root/c/r.json.json\<close>
  and fails with \<^verbatim>\<open>NotFound\<close> when that does not exist.
\<close>

theorem Read_names:
  assumes c: "c \<noteq> []" and r: "plain_name r"
    and f: "file_at fs (at d (fnlPath d c r)) = Some b"
  shows "Read lib d fs c r v =
           (case Unmarshal lib b of Inl e \<Rightarrow> Some (JsonError e) | Inr s \<Rightarrow> None) \<and>
         (entry_at fs (at d (add_ext (fnlPath d c r) ''.json'')) = None \<longrightarrow>
            Read lib d fs c (r @ ''.json'') v = Some (PathError ENOENT))"
proof -
  let ?D = "collection_dir d c"
  let ?X = "at d ?D"
  let ?P = "\<lambda>n. Path (rooted ?D) (elems ?D @ [n])"
  from r have rne: "r \<noteq> []" by (simp add: plain_name_def)
  have rj: "plain_name (r @ ''.json'')" by (rule plain_name_ext [OF r])
  have rjj: "plain_name ((r @ ''.json'') @ ''.json'')" by (rule plain_name_ext [OF rj])
  have fp: "fnlPath d c r = ?P (r @ ''.json'')" by (rule fnlPath_plain [OF r])
  have rp: "record_path d c r = ?P r" by (rule record_path_plain [OF r])
  have rpj: "record_path d c (r @ ''.json'') = ?P (r @ ''.json'')"
    by (rule record_path_plain [OF rj])
  have ext: "add_ext (?P n) ''.json'' = ?P (n @ ''.json'')" for n
    by (rule add_ext_snoc)
  have at1: "at d (?P r) = ?X @ [r]" by (rule at_snoc [OF r])
  have at2: "at d (?P (r @ ''.json'')) = ?X @ [r @ ''.json'']" by (rule at_snoc [OF rj])
  have at3: "at d (?P ((r @ ''.json'') @ ''.json'')) = ?X @ [(r @ ''.json'') @ ''.json'']"
    by (rule at_snoc [OF rjj])
  from f have wf: "walk fs (?X @ [r @ ''.json'']) = Inr (File b)"
    unfolding fp at2
    by (auto simp: file_at_def entry_at_def split: sum.splits node.splits option.splits entry.splits)
  from walk_snoc_parent [OF wf] obtain es where
    es: "walk fs ?X = Inr (Dir es)" by blast
  have "walk fs (?X @ [r]) = Inl ENOENT \<or> (\<exists>n. walk fs (?X @ [r]) = Inr n)"
    using walk_snoc_in_dir [OF es, of r] by (auto split: option.splits)
  then have st: "\<exists>m. stat fs (cwd d) (?P r) = Inr m"
    using wf at1 at2 unfolding stat_def Stat_def sys_stat_def ext at_def
    by (auto split: node.splits)
  have rd: "ReadFile fs (cwd d) (?P (r @ ''.json'')) = Inr b"
    using wf at2 by (simp add: ReadFile_def sys_read_file_def at_def)
  have bare: "Read lib d fs c r v =
           (case Unmarshal lib b of Inl e \<Rightarrow> Some (JsonError e) | Inr s \<Rightarrow> None)"
    using c rne st rd unfolding Read_def rp Let_def ext by (auto split: sum.splits)
  have suff: "Read lib d fs c (r @ ''.json'') v = Some (PathError ENOENT)"
    if none: "entry_at fs (at d (add_ext (fnlPath d c r) ''.json'')) = None"
  proof -
    from none have "walk fs (?X @ [(r @ ''.json'') @ ''.json'']) = Inl ENOENT"
      using walk_snoc_in_dir [OF es, of "(r @ ''.json'') @ ''.json''"]
      unfolding fp ext at3
      by (auto simp: entry_at_def split: option.splits node.splits)
    then have "ReadFile fs (cwd d) (?P ((r @ ''.json'') @ ''.json'')) = Inl ENOENT"
      using at3 by (simp add: ReadFile_def sys_read_file_def at_def)
    moreover have "stat fs (cwd d) (?P (r @ ''.json'')) = Inr ModeRegular"
      using wf at2 by (simp add: stat_def Stat_def sys_stat_def at_def)
    ultimately show ?thesis using c unfolding Read_def rpj Let_def ext by simp
  qed
  from bare suff show ?thesis by blast
qed

text \<open>
  C4 as stated fails: \<^verbatim>\<open>stat\<close> accepts the suffixed name, but the file then read is the
  name with the suffix appended once more.
\<close>

theorem Read_names_counterexample:
  "file_at fs_zoro (at db (fnlPath db ''users'' ''zoro'')) = Some (''true'' @ [CHR 0x0A]) \<and>
   Read go_json db fs_zoro ''users'' (''zoro'' @ ''.json'') [] = Some (PathError ENOENT)"
  by code_simp

theorem Read_names_witness:
  "plain_name ''zoro'' \<and>
   file_at fs_shadow (at db (fnlPath db ''users'' ''zoro''))
     = Some (CHR 0x22 # ''hi'' @ [CHR 0x22, CHR 0x0A]) \<and>
   entry_at fs_shadow (at db (add_ext (fnlPath db ''users'' ''zoro'') ''.json'')) = None \<and>
   Read go_json db fs_shadow ''users'' ''zoro'' [] = None \<and>
   Read go_json db fs_shadow ''users'' (''zoro'' @ ''.json'') [] = Some (PathError ENOENT)"
proof -
  have c: "''users'' \<noteq> []" by simp
  have r: "plain_name ''zoro''" by code_simp
  have f: "file_at fs_shadow (at db (fnlPath db ''users'' ''zoro''))
             = Some (CHR 0x22 # ''hi'' @ [CHR 0x22, CHR 0x0A])" by code_simp
  have n: "entry_at fs_shadow (at db (add_ext (fnlPath db ''users'' ''zoro'') ''.json'')) = None"
    by code_simp
  have u: "Unmarshal go_json (CHR 0x22 # ''hi'' @ [CHR 0x22, CHR 0x0A]) = Inr ''hi''"
    by code_simp
  from Read_names [OF c r f, of go_json "[]"] r f n u show ?thesis by simp
qed

text \<open>
  C1. \<^verbatim>\<open>Read\<close> gives its caller an error and nothing else; after a successful \<^verbatim>\<open>Write\<close> of
  a value that is not a string, decoding into the string destination fails.
\<close>

theorem Write_then_Read_type_error:
  "Write go_json db fs_empty ''users'' ''zoro'' True = (None, fs_zoro) \<and>
   Read go_json db fs_zoro ''users'' ''zoro'' [] = Some (JsonError UnmarshalTypeError)"
  by code_simp

lemma read_files_all:
  assumes dir: "walk fs (os_path wd p) = Inr (Dir es)"
  shows "\<forall>n\<in>set ns. plain_name n \<and> (\<exists>b. map_of es n = Some (File b)) \<Longrightarrow>
     \<exists>bs. read_files fs wd p ns acc = Inr (acc @ bs) \<and>
          list_all2 (\<lambda>n b. map_of es n = Some (File b)) ns bs"
proof (induction ns arbitrary: acc)
  case Nil
  then show ?case by simp
next
  case (Cons n ns)
  from Cons.prems obtain b where n: "plain_name n" and b: "map_of es n = Some (File b)"
    by auto
  have "os_path wd (Join p [n]) = os_path wd p @ [n]"
    using os_path_snoc [OF n, of wd "rooted p" "elems p"]
    by (simp add: Join_plain [OF n] os_path_def)
  then have rd: "ReadFile fs wd (Join p [n]) = Inr b"
    using walk_snoc_in_dir [OF dir, of n] b by (simp add: ReadFile_def sys_read_file_def)
  from Cons.prems have rest: "\<forall>n\<in>set ns. plain_name n \<and> (\<exists>b. map_of es n = Some (File b))"
    by simp
  from Cons.IH [OF rest, of "acc @ [b]"] obtain bs where
    bs: "read_files fs wd p ns (acc @ [b]) = Inr (acc @ [b] @ bs)"
      "list_all2 (\<lambda>n b. map_of es n = Some (File b)) ns bs" by auto
  show ?case
  proof (intro exI conjI)
    show "read_files fs wd p (n # ns) acc = Inr (acc @ (b # bs))" using rd bs(1) by simp
    show "list_all2 (\<lambda>n b. map_of es n = Some (File b)) (n # ns) (b # bs)"
      using b bs(2) by simp
  qed
qed

text \<open>
  C8, amended. With a non-empty collection name, \<^verbatim>\<open>ReadAll\<close> fails with \<^verbatim>\<open>NotFound\<close> when
  the lookup of the collection directory ends at a missing name. When the directory exists
  and holds regular files only, under distinct plain names, \<^verbatim>\<open>ReadAll\<close> returns the content
  of every file, one per entry in the order of the names.
\<close>

theorem ReadAll_collection:
  assumes c: "c \<noteq> []"
  shows "(walk fs (at d (collection_dir d c)) = Inl ENOENT \<longrightarrow>
            ReadAll d fs c = Inl (PathError ENOENT) \<and> is_NotFound (PathError ENOENT)) \<and>
         (walk fs (at d (collection_dir d c)) = Inr (Dir es) \<and> distinct (map fst es) \<and>
          (\<forall>(n, x)\<in>set es. plain_name n \<and> (\<exists>b. x = File b)) \<longrightarrow>
            (\<exists>records. ReadAll d fs c = Inr records \<and>
               list_all2 (\<lambda>n b. map_of es n = Some (File b)) (sort (map fst es)) records \<and>
               (\<forall>n b. (n, File b) \<in> set es \<longrightarrow> b \<in> set records)))"
proof (intro conjI impI)
  assume "walk fs (at d (collection_dir d c)) = Inl ENOENT"
  from ReadAll_missing [OF c this] show "ReadAll d fs c = Inl (PathError ENOENT)" .
next
  show "is_NotFound (PathError ENOENT)" by simp
next
  assume a: "walk fs (at d (collection_dir d c)) = Inr (Dir es) \<and> distinct (map fst es) \<and>
          (\<forall>(n, x)\<in>set es. plain_name n \<and> (\<exists>b. x = File b))"
  then have dir: "walk fs (os_path (cwd d) (collection_dir d c)) = Inr (Dir es)"
    and dist: "distinct (map fst es)"
    and files: "\<And>n x. (n, x) \<in> set es \<Longrightarrow> plain_name n \<and> (\<exists>b. x = File b)"
    by (auto simp: at_def)
  have all: "\<forall>n\<in>set (sort (map fst es)). plain_name n \<and> (\<exists>b. map_of es n = Some (File b))"
  proof
    fix n assume "n \<in> set (sort (map fst es))"
    then obtain x where x: "(n, x) \<in> set es" by auto
    with dist have "map_of es n = Some x" by simp
    with files [OF x] show "plain_name n \<and> (\<exists>b. map_of es n = Some (File b))" by auto
  qed
  from read_files_all [OF dir all, of "[]"] obtain records where
    rf: "read_files fs (cwd d) (collection_dir d c) (sort (map fst es)) [] = Inr records"
    and la: "list_all2 (\<lambda>n b. map_of es n = Some (File b)) (sort (map fst es)) records"
    by auto
  have ra: "ReadAll d fs c = Inr records"
    using c dir rf
    by (simp add: ReadAll_def stat_def Stat_def sys_stat_def ReadDir_def sys_read_dir_def)
  have mem: "b \<in> set records" if "(n, File b) \<in> set es" for n b
  proof -
    from that have "n \<in> set (sort (map fst es))" by force
    then obtain i where i: "i < length (sort (map fst es))" "sort (map fst es) ! i = n"
      by (metis in_set_conv_nth)
    from la i have "i < length records" "map_of es n = Some (File (records ! i))"
      by (auto simp: list_all2_conv_all_nth)
    then obtain b' where "b' \<in> set records" "map_of es n = Some (File b')"
      using nth_mem by blast
    moreover from that dist have "map_of es n = Some (File b)" by simp
    ultimately show ?thesis by simp
  qed
  from ra la mem
  show "\<exists>records. ReadAll d fs c = Inr records \<and>
               list_all2 (\<lambda>n b. map_of es n = Some (File b)) (sort (map fst es)) records \<and>
               (\<forall>n b. (n, File b) \<in> set es \<longrightarrow> b \<in> set records)" by blast
qed

text \<open>
  C8 as stated fails: a directory inside the collection directory makes \<^verbatim>\<open>os.ReadFile\<close>
  fail, and \<^verbatim>\<open>ReadAll\<close> returns that error and no sequence.
\<close>

theorem ReadAll_collection_counterexample:
  "walk fs_nested (at db (collection_dir db ''users''))
     = Inr (Dir [(''admins'', Dir [(''a.json'', File (''true'' @ [CHR 0x0A]))]),
                 (''zoro.json'', File (''true'' @ [CHR 0x0A]))]) \<and>
   ReadAll db fs_nested ''users'' = Inl (PathError EISDIR)"
  by code_simp

theorem ReadAll_collection_witness:
  "walk fs_empty (at here (collection_dir here ''users'')) = Inl ENOENT \<and>
   ReadAll here fs_empty ''users'' = Inl (PathError ENOENT) \<and>
   (\<exists>records. ReadAll here fs_two ''users'' = Inr records \<and>
      ''true'' @ [CHR 0x0A] \<in> set records \<and> ''false'' @ [CHR 0x0A] \<in> set records)"
proof -
  let ?es = "[(''zoro.json'', File (''true'' @ [CHR 0x0A])),
              (''sabo.json'', File (''false'' @ [CHR 0x0A]))]"
  have c: "''users'' \<noteq> []" by simp
  have w1: "walk fs_empty (at here (collection_dir here ''users'')) = Inl ENOENT" by code_simp
  have w2: "walk fs_two (at here (collection_dir here ''users'')) = Inr (Dir ?es)" by code_simp
  have d: "distinct (map fst ?es)" by simp
  have f: "\<forall>(n, x)\<in>set ?es. plain_name n \<and> (\<exists>b. x = File b)"
    by (simp add: plain_name_def)
  from ReadAll_collection [OF c, of fs_empty here] w1
  have r1: "ReadAll here fs_empty ''users'' = Inl (PathError ENOENT)" by simp
  from ReadAll_collection [OF c, of fs_two here ?es] w2 d f
  obtain records where "ReadAll here fs_two ''users'' = Inr records"
    "\<forall>n b. (n, File b) \<in> set ?es \<longrightarrow> b \<in> set records" by blast
  then have "\<exists>records. ReadAll here fs_two ''users'' = Inr records \<and>
      ''true'' @ [CHR 0x0A] \<in> set records \<and> ''false'' @ [CHR 0x0A] \<in> set records"
    by auto
  with w1 r1 show ?thesis by simp
qed

section \<open>Delete\<close>

lemma clean_step_elems:
  "\<forall>e\<in>set p. e \<noteq> [] \<and> e \<noteq> ''.'' \<Longrightarrow> \<forall>e\<in>set (clean_step ro p x). e \<noteq> [] \<and> e \<noteq> ''.''"
  by (auto simp: clean_step_def dest: in_set_butlastD)

lemma clean_fold_elems:
  "\<forall>e\<in>set (foldl (clean_step ro) [] xs). e \<noteq> [] \<and> e \<noteq> ''.''"
proof (induction xs rule: rev_induct)
  case Nil
  show ?case by simp
next
  case (snoc x xs)
  from clean_step_elems [OF snoc] show ?case by simp
qed

lemma clean_fold_snoc:
  "n \<noteq> [] \<Longrightarrow> n \<noteq> ''.'' \<Longrightarrow> n \<noteq> ''..'' \<Longrightarrow>
   foldl (clean_step ro) p (B @ [n]) = foldl (clean_step ro) p B @ [n]"
  by (simp add: clean_step_def)

lemma clean_step_rel:
  assumes inv: "\<forall>e\<in>set A. e \<noteq> [] \<and> e \<noteq> ''.''"
  shows "foldl (clean_step ro) p (clean_step False A x) = clean_step ro (foldl (clean_step ro) p A) x"
proof (cases "x = ''..'' \<and> A \<noteq> [] \<and> last A \<noteq> ''..''")
  case True
  then have A: "A = butlast A @ [last A]" by simp
  from True inv have n: "last A \<noteq> []" "last A \<noteq> ''.''" "last A \<noteq> ''..''"
    using last_in_set by auto
  have "foldl (clean_step ro) p A = foldl (clean_step ro) p (butlast A) @ [last A]"
    using clean_fold_snoc [OF n, of ro p "butlast A"] A by simp
  moreover have "clean_step False A x = butlast A" using True by (simp add: clean_step_def)
  ultimately show ?thesis using True n by (simp add: clean_step_def)
next
  case False
  then show ?thesis by (auto simp: clean_step_def)
qed

lemma clean_fold_rel:
  "foldl (clean_step ro) p (foldl (clean_step False) [] xs) = foldl (clean_step ro) p xs"
proof (induction xs rule: rev_induct)
  case Nil
  show ?case by simp
next
  case (snoc x xs)
  have "foldl (clean_step ro) p (foldl (clean_step False) [] (xs @ [x])) =
        foldl (clean_step ro) p (clean_step False (foldl (clean_step False) [] xs) x)"
    by simp
  also have "\<dots> = clean_step ro (foldl (clean_step ro) p (foldl (clean_step False) [] xs)) x"
    by (rule clean_step_rel [OF clean_fold_elems])
  also have "\<dots> = foldl (clean_step ro) p (xs @ [x])" using snoc by simp
  finally show ?case .
qed

lemma delete_path_relative:
  assumes "c \<noteq> []" "hd c \<noteq> CHR ''/''"
  shows "delete_path d c r = record_path d c r"
proof -
  let ?ro = "rooted (dir d)"
  let ?xs = "split_path c @ (if r = [] then [] else split_path r)"
  have jn: "Join_names [c, r] = Some (Path False (foldl (clean_step False) [] ?xs))"
    using assms by (simp add: Join_names_def)
  have "delete_path d c r =
          Path ?ro (foldl (clean_step ?ro) (elems (dir d)) (foldl (clean_step False) [] ?xs))"
    unfolding delete_path_def jn Join_path_def by simp
  also have "\<dots> = Path ?ro (foldl (clean_step ?ro) (elems (dir d)) ?xs)"
    by (simp only: clean_fold_rel)
  also have "\<dots> = Path ?ro (foldl (clean_step ?ro) (elems (dir d)) (split_path c @ split_path r))"
    by (simp add: clean_step_def)
  also have "\<dots> = record_path d c r"
    by (simp add: record_path_def Join_def)
  finally show ?thesis .
qed

lemma record_path_empty: "record_path d c [] = collection_dir d c"
  by (simp add: record_path_def collection_dir_def Join_def clean_step_def)

lemma RemoveAll_removable:
  "removable wd p \<Longrightarrow> RemoveAll fs wd p = sys_remove_all fs (os_path wd p)"
  by (auto simp: removable_def RemoveAll_def)

lemma removable_add_ext:
  assumes s: "3 \<le> length s"
  shows "removable wd (add_ext p s)"
proof -
  from os_path_add_ext [OF s, of wd p] have a: "os_path wd (add_ext p s) \<noteq> []" by auto
  have ne: "x @ s \<noteq> ''..''" for x
  proof
    assume "x @ s = ''..''"
    then have "length (x @ s) = length ''..''" by (rule arg_cong)
    with s show False by simp
  qed
  have b: "elems (add_ext p s) \<noteq> []" "last (elems (add_ext p s)) \<noteq> ''..''"
    using ne by (auto simp: add_ext_def)
  from b(1) have "add_ext p s \<noteq> Path False []" by auto
  with a b show ?thesis by (simp add: removable_def)
qed

lemma sys_remove_all_existing:
  assumes "walk fs p = Inr n" "p \<noteq> []"
  shows "\<exists>fs'. sys_remove_all fs p = (None, fs') \<and> alter (\<lambda>x. Inr None) fs p = Inr fs'"
proof (cases "alter (\<lambda>x. Inr None) fs p")
  case (Inl e)
  from alter_fails [OF Inl _ assms(2)] assms(1) show ?thesis by simp
next
  case (Inr fs')
  then show ?thesis by (simp add: sys_remove_all_def)
qed

lemma sys_remove_all_gone:
  assumes "sys_remove_all fs p = (None, fs')" "p \<noteq> []"
  shows "walk fs' p = Inl ENOENT"
    and "\<And>q. \<not> prefix p q \<Longrightarrow> \<not> prefix q p \<Longrightarrow> walk fs' q = walk fs q"
    and "\<And>q. \<not> prefix p q \<Longrightarrow> entry_at fs' q = entry_at fs q"
proof -
  show "walk fs' p = Inl ENOENT"
  proof (cases "alter (\<lambda>x. Inr None) fs p")
    case (Inl e)
    with assms have "e = ENOENT" "fs' = fs"
      by (auto simp: sys_remove_all_def split: errno.splits)
    with alter_fails [OF Inl _ assms(2)] show ?thesis by simp
  next
    case (Inr t)
    with assms have "fs' = t" by (simp add: sys_remove_all_def)
    with remove_walk [OF Inr, of "[]"] show ?thesis by simp
  qed
next
  fix q assume q: "\<not> prefix p q" "\<not> prefix q p"
  show "walk fs' q = walk fs q"
  proof (cases "alter (\<lambda>x. Inr None) fs p")
    case (Inl e)
    with assms have "fs' = fs"
      by (auto simp: sys_remove_all_def split: errno.splits)
    then show ?thesis by simp
  next
    case (Inr t)
    with assms have "fs' = t" by (simp add: sys_remove_all_def)
    with alter_walk_other [OF Inr q] show ?thesis by simp
  qed
next
  fix q assume q: "\<not> prefix p q"
  show "entry_at fs' q = entry_at fs q"
  proof (cases "alter (\<lambda>x. Inr None) fs p")
    case (Inl e)
    with assms have "fs' = fs"
      by (auto simp: sys_remove_all_def split: errno.splits)
    then show ?thesis by simp
  next
    case (Inr t)
    with assms have "fs' = t" by (simp add: sys_remove_all_def)
    with remove_entry [OF Inr, of q] q show ?thesis by simp
  qed
qed




text \<open>
  C5, amended. \<^verbatim>\<open>Delete\<close> with an empty resource name and a non-empty collection name that
  does not begin with the separator, whose directory exists and can be removed (it is not
  the path \<^verbatim>\<open>.\<close>, not the root of the file system and does not end in \<^verbatim>\<open>..\<close>), returns nil;
  afterwards nothing exists at or below the collection directory, every other place is as
  before, and \<^verbatim>\<open>ReadAll\<close> on the collection fails with \<^verbatim>\<open>NotFound\<close>.
\<close>

theorem Delete_collection:
  assumes c: "c \<noteq> []" and rel: "hd c \<noteq> CHR ''/''"
    and dir: "walk fs (at d (collection_dir d c)) = Inr (Dir es)"
    and rm: "removable (cwd d) (collection_dir d c)"
  shows "\<exists>fs'. Delete d fs c [] = (None, fs') \<and>
      (\<forall>q. entry_at fs' q = (if prefix (at d (collection_dir d c)) q then None else entry_at fs q)) \<and>
      ReadAll d fs' c = Inl (PathError ENOENT) \<and> is_NotFound (PathError ENOENT)"
proof -
  let ?D = "collection_dir d c"
  have dp: "delete_path d c [] = ?D"
    using delete_path_relative [OF c rel, of d "[]"] by (simp add: record_path_empty)
  from dir have st: "stat fs (cwd d) ?D = Inr ModeDir"
    by (simp add: stat_def Stat_def sys_stat_def at_def)
  from rm have ne: "at d ?D \<noteq> []" by (simp add: removable_def at_def)
  from sys_remove_all_existing [OF dir ne] obtain fs' where
    sr: "sys_remove_all fs (at d ?D) = (None, fs')"
    and al: "alter (\<lambda>x. Inr None) fs (at d ?D) = Inr fs'" by blast
  have del: "Delete d fs c [] = (None, fs')"
    using sr by (simp add: Delete_def dp st RemoveAll_removable [OF rm] at_def)
  have ent: "\<forall>q. entry_at fs' q = (if prefix (at d ?D) q then None else entry_at fs q)"
    using remove_entry [OF al] by blast
  have "walk fs' (at d ?D) = Inl ENOENT"
    using remove_walk [OF al, of "[]"] by simp
  from ReadAll_missing [OF c this] have "ReadAll d fs' c = Inl (PathError ENOENT)" .
  with del ent show ?thesis by simp
qed

text \<open>
  C5 as stated fails: \<^verbatim>\<open>Delete\<close> cleans the joined names on their own before it joins them
  to the root directory, so for a collection name that begins with the separator and
  climbs it looks below the root directory, while \<^verbatim>\<open>Write\<close> and \<^verbatim>\<open>ReadAll\<close> act outside
  it: the collection exists for them and \<^verbatim>\<open>Delete\<close> does not find it.
\<close>

theorem Delete_collection_counterexample:
  "Write go_json db fs_empty ''/../x'' ''a'' True = (None, fs_outside) \<and>
   walk fs_outside (at db (collection_dir db ''/../x''))
     = Inr (Dir [(''a.json'', File (''true'' @ [CHR 0x0A]))]) \<and>
   Delete db fs_outside ''/../x'' [] = (Some (UnableToFind ''/../x'' []), fs_outside) \<and>
   ReadAll db fs_outside ''/../x'' = Inr [''true'' @ [CHR 0x0A]]"
  by code_simp

theorem Delete_collection_witness:
  "''users'' \<noteq> [] \<and> hd ''users'' \<noteq> CHR ''/'' \<and>
   walk fs_zoro (at here (collection_dir here ''users''))
       = Inr (Dir [(''zoro.json'', File (''true'' @ [CHR 0x0A]))]) \<and>
   removable (cwd here) (collection_dir here ''users'') \<and>
   (\<exists>fs'. Delete here fs_zoro ''users'' [] = (None, fs') \<and>
      ReadAll here fs' ''users'' = Inl (PathError ENOENT))"
proof -
  have c: "''users'' \<noteq> []" and rel: "hd ''users'' \<noteq> CHR ''/''" by simp_all
  have w: "walk fs_zoro (at here (collection_dir here ''users''))
       = Inr (Dir [(''zoro.json'', File (''true'' @ [CHR 0x0A]))])" by code_simp
  have n: "removable (cwd here) (collection_dir here ''users'')" by code_simp
  from Delete_collection [OF c rel w n] c rel w n show ?thesis by blast
qed

text \<open>
  C6, amended. With both names non-empty and a collection name that does not begin with
  the separator, when neither \<^verbatim>\<open>root/c/r\<close> nor \<^verbatim>\<open>root/c/r.json\<close> is a directory and
  \<^verbatim>\<open>Delete\<close> returns nil, \<^verbatim>\<open>Read\<close> fails afterwards with \<^verbatim>\<open>NotFound\<close>.
\<close>

theorem Delete_then_Read:
  assumes c: "c \<noteq> []" and rel: "hd c \<noteq> CHR ''/''" and r: "r \<noteq> []"
    and del: "Delete d fs c r = (None, fs')"
    and nd: "entry_at fs (at d (record_path d c r)) \<noteq> Some Directory"
    and ndj: "entry_at fs (at d (add_ext (record_path d c r) ''.json'')) \<noteq> Some Directory"
  shows "Read lib d fs' c r v = Some (PathError ENOENT) \<and> is_NotFound (PathError ENOENT)"
proof -
  let ?p = "record_path d c r"
  let ?pj = "add_ext ?p ''.json''"
  let ?P = "at d ?p"
  let ?PJ = "at d ?pj"
  have s: "3 \<le> length ''.json''" by simp
  have dp: "delete_path d c r = ?p" by (rule delete_path_relative [OF c rel])
  have rmj: "RemoveAll fs (cwd d) ?pj = sys_remove_all fs ?PJ"
    using RemoveAll_removable [OF removable_add_ext [OF s]] by (simp add: at_def)
  from os_path_add_ext [OF s, of "cwd d" ?p] have pj: "?PJ \<noteq> []" by (auto simp: at_def)
  have np: "\<not> prefix ?PJ ?P" using os_path_add_ext_not_prefix [OF s] by (simp add: at_def)
  have rm: "sys_remove_all fs ?PJ = (None, fs')" and cases:
    "(\<exists>b. walk fs ?P = Inr (File b)) \<or> (walk fs ?P = Inl ENOENT \<and> (\<exists>b. walk fs ?PJ = Inr (File b)))"
    using del nd ndj unfolding Delete_def dp Let_def
    by (auto simp: stat_def Stat_def sys_stat_def entry_at_def rmj at_def
        split: sum.splits node.splits errno.splits file_mode.splits prod.splits option.splits)
  have gone: "walk fs' ?PJ = Inl ENOENT" by (rule sys_remove_all_gone(1) [OF rm pj])
  have same: "entry_at fs' ?P = entry_at fs ?P" by (rule sys_remove_all_gone(3) [OF rm pj np])
  from cases have "stat fs' (cwd d) ?p = Inl ENOENT \<or> (\<exists>m. stat fs' (cwd d) ?p = Inr m)"
  proof
    assume "\<exists>b. walk fs ?P = Inr (File b)"
    then obtain b where "entry_at fs' ?P = Some (Regular b)"
      using same by (auto simp: entry_at_def)
    then show ?thesis
      by (auto simp: stat_def Stat_def sys_stat_def entry_at_def at_def
          split: sum.splits node.splits)
  next
    assume a: "walk fs ?P = Inl ENOENT \<and> (\<exists>b. walk fs ?PJ = Inr (File b))"
    from walk_ext_ENOENT [OF s, of fs' "cwd d" ?p] gone
    have "walk fs' ?P = Inl ENOENT \<Longrightarrow> stat fs' (cwd d) ?p = Inl ENOENT"
      by (simp add: stat_def Stat_def sys_stat_def at_def)
    moreover have "walk fs' ?P = Inl ENOENT \<or> (\<exists>n. walk fs' ?P = Inr n)"
    proof -
      from os_path_add_ext [OF s, of "cwd d" ?p] obtain X l' where
        x: "?PJ = X @ [l']"
        and y: "?P = X \<or> ?P = butlast X \<or> (\<exists>l. ?P = X @ [l] \<and> l' = l @ ''.json'')"
        by (auto simp: at_def)
      from a x obtain es where X: "walk fs X = Inr (Dir es)"
        using walk_snoc_parent [of fs X l'] by auto
      have bX: "\<exists>n. walk fs (butlast X) = Inr n"
      proof (cases "X = []")
        case True then show ?thesis by simp
      next
        case False
        then have "X = butlast X @ [last X]" by simp
        with X walk_snoc_parent [of fs "butlast X" "last X"] show ?thesis by metis
      qed
      from y a X bX obtain l where l: "?P = X @ [l]" "l' = l @ ''.json''" by auto
      then have "\<not> prefix ?PJ ?P" "\<not> prefix ?P ?PJ" using x by auto
      from sys_remove_all_gone(2) [OF rm pj this] a show ?thesis by simp
    qed
    ultimately show ?thesis
      by (auto simp: stat_def Stat_def sys_stat_def at_def split: node.splits)
  qed
  moreover have "ReadFile fs' (cwd d) ?pj = Inl ENOENT"
    using gone by (simp add: ReadFile_def sys_read_file_def at_def)
  ultimately show ?thesis using c r by (auto simp: Read_def)
qed

text \<open>
  C6 as stated fails: when \<^verbatim>\<open>root/c/r\<close> is a directory beside the record file
  \<^verbatim>\<open>root/c/r.json\<close>, \<^verbatim>\<open>Delete\<close> removes the directory and returns nil, and \<^verbatim>\<open>Read\<close> then
  finds the record file and returns nil.
\<close>

theorem Delete_then_Read_counterexample:
  "Delete db fs_shadow ''users'' ''zoro'' = (None, snd (Delete db fs_shadow ''users'' ''zoro'')) \<and>
   Read go_json db (snd (Delete db fs_shadow ''users'' ''zoro'')) ''users'' ''zoro'' [] = None"
  by code_simp

theorem Delete_then_Read_witness:
  "Delete here fs_zoro ''users'' ''zoro''
     = (None, Dir [(''db'', Dir [(''users'', Dir [])]), (''home'', Dir [])]) \<and>
   entry_at fs_zoro (at here (record_path here ''users'' ''zoro'')) \<noteq> Some Directory \<and>
   entry_at fs_zoro (at here (add_ext (record_path here ''users'' ''zoro'') ''.json''))
     \<noteq> Some Directory \<and>
   Read go_json here (Dir [(''db'', Dir [(''users'', Dir [])]), (''home'', Dir [])])
     ''users'' ''zoro'' [] = Some (PathError ENOENT)"
proof -
  have c: "''users'' \<noteq> []" and rel: "hd ''users'' \<noteq> CHR ''/''" and r: "''zoro'' \<noteq> []"
    by simp_all
  have d: "Delete here fs_zoro ''users'' ''zoro''
     = (None, Dir [(''db'', Dir [(''users'', Dir [])]), (''home'', Dir [])])"
    by code_simp
  have n1: "entry_at fs_zoro (at here (record_path here ''users'' ''zoro'')) \<noteq> Some Directory"
    by code_simp
  have n2: "entry_at fs_zoro (at here (add_ext (record_path here ''users'' ''zoro'') ''.json''))
     \<noteq> Some Directory"
    by code_simp
  from Delete_then_Read [OF c rel r d n1 n2, of go_json "[]"] d n1 n2 show ?thesis by simp
qed

end
